theory Spec2Isabelle
  imports Complex_Main "HOL-Library.Log_Nat"
begin

section \<open>The rep state machine (process_pushup.py)\<close>

text \<open>
  Joint angles and the rep count are Python floats, that is IEEE 754 binary64 numbers.
  A finite float is given by the real number it denotes. The code compares angles with
  the constants 90, 160 and 40, which is exact, and adds 0.5 to the count, which rounds:
  the sum of two floats is the float nearest to their exact sum, ties going to the
  neighbour with an even significand. Infinities and NaN are outside the model; they
  do not arise from adding 0.5 to a finite float.

  \<open>round_binary64\<close> is that rounding. A binary64 number is a multiple of
  \<open>2 ^ -1074\<close> with a significand of at most 53 bits, so the spacing of the floats
  around \<open>z\<close> is \<open>2 ^ (b - 53) * 2 ^ -1074\<close>, where \<open>b\<close> is the number of bits of
  the integer part of \<open>\<bar>z\<bar> * 2 ^ 1074\<close> (and \<open>2 ^ -1074\<close> for subnormal \<open>z\<close>).
\<close>

definition round_half_even :: "real \<Rightarrow> int" where
  "round_half_even t =
     (let f = \<lfloor>t\<rfloor>; d = t - of_int f
      in if d < 1 / 2 then f
         else if 1 / 2 < d then f + 1
         else if even f then f else f + 1)"

definition round_binary64 :: "real \<Rightarrow> real" where
  "round_binary64 z =
     (let n = \<lfloor>\<bar>z\<bar> * 2 ^ 1074\<rfloor>;
          ulp = 2 ^ nat (bitlen n - 53) / 2 ^ 1074
      in sgn z * of_int (round_half_even (\<bar>z\<bar> / ulp)) * ulp)"

text \<open>The binary64 numbers are the real numbers that rounding leaves as they are.\<close>

definition binary64 :: "real \<Rightarrow> bool" where
  "binary64 z \<longleftrightarrow> round_binary64 z = z"

text \<open>Python's \<open>x + y\<close> on floats.\<close>

definition float_add :: "real \<Rightarrow> real \<Rightarrow> real" where
  "float_add x y = round_binary64 (x + y)"

text \<open>
  \<open>direction\<close> and \<open>form\<close> are Python ints. \<open>update_feedback_and_count\<close> returns
  the tuple \<open>(feedback, count, direction, form)\<close>, as the source does. The variable
  \<open>form'\<close> is \<open>form\<close> after the starting-position check of lines 15-17.
\<close>

definition update_feedback_and_count ::
  "real \<Rightarrow> real \<Rightarrow> real \<Rightarrow> int \<Rightarrow> real \<Rightarrow> int \<Rightarrow> string \<times> real \<times> int \<times> int" where
  "update_feedback_and_count elbow shoulder hip direction count form =
     (let form' = (if elbow > 160 \<and> shoulder > 40 \<and> hip > 160 then 1 else form) in
      if form' = 1 then
        (if elbow \<le> 90 \<and> hip > 160 then
           (if direction = 0 then (''Good - Push Up'', float_add count (1 / 2), 1, form')
            else (''Good - Push Up'', count, direction, form'))
         else if elbow > 160 \<and> shoulder > 40 \<and> hip > 160 then
           (if direction = 1 then (''Good - Go Down'', float_add count (1 / 2), 0, form')
            else (''Good - Go Down'', count, direction, form'))
         else (''Fix Form'', count, direction, form'))
      else (''Get into starting position'', count, direction, form'))"

text \<open>
  The session adopts the returned state after every frame (main.py, line 130).
  \<open>feed_angles\<close> chains the update over a sequence of angle triples
  \<open>(elbow, shoulder, hip)\<close> in that way, on the state \<open>(count, direction, form)\<close>.
\<close>

fun feed_angles :: "(real \<times> real \<times> real) list \<Rightarrow> real \<times> int \<times> int \<Rightarrow> real \<times> int \<times> int" where
  "feed_angles [] st = st"
| "feed_angles ((elbow, shoulder, hip) # rest) (count, direction, form) =
     (case update_feedback_and_count elbow shoulder hip direction count form of
        (feedback, count', direction', form') \<Rightarrow> feed_angles rest (count', direction', form'))"

text \<open>
  The counts of a session are multiples of 0.5 that start at 0 and grow by one half rep
  at a time. \<open>exact_half_steps\<close> holds of the multiples of 0.5 of magnitude below
  \<open>2 ^ 52\<close>; they and their successors are binary64 numbers.
\<close>

definition exact_half_steps :: "real \<Rightarrow> bool" where
  "exact_half_steps c \<longleftrightarrow> 2 * c = of_int \<lfloor>2 * c\<rfloor> \<and> \<bar>c\<bar> < 2 ^ 52"


section \<open>The frame pipeline (process_pushup.py)\<close>

text \<open>
  An image is its pixel buffer; \<open>img.size\<close> is the length of the buffer and an absent
  image is \<open>None\<close>. A call that can raise returns an \<open>outcome\<close>.
\<close>

type_synonym image = "nat list"

datatype 'a outcome = Raised | Returned 'a

text \<open>
  The pose detector (module PoseModule), OpenCV and NumPy are collaborators outside the
  repository's sources. They are parameters of the model: what each call answers, or
  that it raises, is given by the caller. A landmark is \<open>(id, x, y)\<close>; \<open>interp\<close> is
  \<open>np.interp\<close> on two sample points, called as \<open>np.interp(x, xp, fp)\<close>.
\<close>

record poseDetector =
  findPose :: "image \<Rightarrow> image outcome"
  findPosition :: "image \<Rightarrow> (nat \<times> int \<times> int) list outcome"
  findAngle :: "image \<Rightarrow> nat \<Rightarrow> nat \<Rightarrow> nat \<Rightarrow> real outcome"

record cv2 =
  drawing_ok :: bool
  putText_ok :: bool

record numpy =
  interp :: "real \<Rightarrow> real \<times> real \<Rightarrow> real \<times> real \<Rightarrow> real"

text \<open>The values \<open>draw_ui\<close> is called with.\<close>

record ui =
  ui_per :: real
  ui_bar :: real
  ui_count :: real
  ui_feedback :: string
  ui_form :: int
  ui_elbow_angle :: real
  ui_shoulder_angle :: real
  ui_hip_angle :: real

text \<open>
  The frame a call of \<open>process_frame\<close> returns: a blank 480 x 640 canvas with a caption,
  the original image with a caption, or the detector's copy of the image after
  \<open>draw_ui\<close>. \<open>draw_ui\<close> catches every exception of its drawing calls and logs it, so
  it always returns; \<open>Overlay img None\<close> is the image of a call whose drawing raised.
\<close>

datatype frame_out =
  Canvas string
| Captioned image string
| Overlay image "ui option"

definition draw_ui :: "cv2 \<Rightarrow> image \<Rightarrow> ui \<Rightarrow> frame_out" where
  "draw_ui cv img u = (if drawing_ok cv then Overlay img (Some u) else Overlay img None)"

text \<open>
  The handler of a failure of pose detection (lines 134-147): the rep state is
  returned as it was given.
\<close>

definition critical_error ::
  "cv2 \<Rightarrow> image \<Rightarrow> real \<Rightarrow> int \<Rightarrow> int \<Rightarrow> frame_out \<times> real \<times> int \<times> int \<times> string" where
  "critical_error cv img count direction form =
     (if putText_ok cv then (Captioned img ''Error'', count, direction, form, ''Processing error'')
      else (Canvas ''Error'', count, direction, form, ''Processing error''))"

text \<open>
  The handler of a failure while the angles are computed (lines 127-129): the angles
  read so far are kept, \<open>per\<close> and \<open>bar\<close> stay 0, and the UI is drawn.
\<close>

definition angle_error ::
  "cv2 \<Rightarrow> image \<Rightarrow> real \<Rightarrow> real \<Rightarrow> real \<Rightarrow> real \<Rightarrow> int \<Rightarrow> int \<Rightarrow>
     frame_out \<times> real \<times> int \<times> int \<times> string" where
  "angle_error cv img_copy elbow_angle shoulder_angle hip_angle count direction form =
     (draw_ui cv img_copy
        \<lparr>ui_per = 0, ui_bar = 0, ui_count = count, ui_feedback = ''Error detecting pose'',
         ui_form = form, ui_elbow_angle = elbow_angle, ui_shoulder_angle = shoulder_angle,
         ui_hip_angle = hip_angle\<rparr>,
      count, direction, form, ''Error detecting pose'')"

definition process_frame ::
  "numpy \<Rightarrow> cv2 \<Rightarrow> image option \<Rightarrow> poseDetector \<Rightarrow> real \<Rightarrow> int \<Rightarrow> int \<Rightarrow>
     frame_out \<times> real \<times> int \<times> int \<times> string" where
  "process_frame np cv img detector count direction form =
     (case img of
        None \<Rightarrow> (Canvas ''Invalid Frame'', count, direction, form, ''Move into frame'')
      | Some im \<Rightarrow>
          if length im = 0
          then (Canvas ''Invalid Frame'', count, direction, form, ''Move into frame'')
          else
            (case findPose detector im of
               Raised \<Rightarrow> critical_error cv im count direction form
             | Returned img_copy \<Rightarrow>
                 (case findPosition detector img_copy of
                    Raised \<Rightarrow> critical_error cv im count direction form
                  | Returned lmList \<Rightarrow>
                      if length lmList \<noteq> 0 then
                        (case findAngle detector img_copy 12 14 16 of
                           Raised \<Rightarrow> angle_error cv img_copy 0 0 0 count direction form
                         | Returned elbow_angle \<Rightarrow>
                        (case findAngle detector img_copy 14 12 24 of
                           Raised \<Rightarrow> angle_error cv img_copy elbow_angle 0 0 count direction form
                         | Returned shoulder_angle \<Rightarrow>
                        (case findAngle detector img_copy 12 24 26 of
                           Raised \<Rightarrow>
                             angle_error cv img_copy elbow_angle shoulder_angle 0
                               count direction form
                         | Returned hip_angle \<Rightarrow>
                             (let per = interp np elbow_angle (90, 160) (0, 100);
                                  bar = interp np elbow_angle (90, 160) (380, 50)
                              in case update_feedback_and_count elbow_angle shoulder_angle
                                        hip_angle direction count form of
                                   (feedback, count', direction', form') \<Rightarrow>
                                     (draw_ui cv img_copy
                                        \<lparr>ui_per = per, ui_bar = bar, ui_count = count',
                                         ui_feedback = feedback, ui_form = form',
                                         ui_elbow_angle = elbow_angle,
                                         ui_shoulder_angle = shoulder_angle,
                                         ui_hip_angle = hip_angle\<rparr>,
                                      count', direction', form', feedback)))))
                      else
                        (draw_ui cv img_copy
                           \<lparr>ui_per = 0, ui_bar = 0, ui_count = count,
                            ui_feedback = ''Move into frame'', ui_form = form,
                            ui_elbow_angle = 0, ui_shoulder_angle = 0, ui_hip_angle = 0\<rparr>,
                         count, direction, form, ''Move into frame''))))"


section \<open>The streaming session (main.py)\<close>

text \<open>
  The messages the server sends: the annotated frame as a binary message (the JPEG
  encoding is not modelled, the message carries the frame it encodes) and the JSON
  record as a text message. The record's timestamp is left out.
\<close>

record telemetry =
  json_count :: int
  json_feedback :: string
  json_form :: int
  json_correct_reps :: nat
  json_incorrect_reps :: nat

datatype message = Binary frame_out | Text telemetry

text \<open>Python's \<open>int(x)\<close> on a float truncates towards zero.\<close>

definition py_int :: "real \<Rightarrow> int" where
  "py_int x = (if 0 \<le> x then \<lfloor>x\<rfloor> else \<lceil>x\<rceil>)"

text \<open>
  What the world answers during one iteration of the loop, once a frame has been
  received: the result of \<open>cv2.imdecode\<close> (it may raise, return \<open>None\<close>, or return an
  image), NumPy, the detector and the drawing calls as they behave on this frame, whether
  \<open>cv2.imencode\<close> succeeds, and whether each send goes through. An iteration either
  fails to receive or receives a frame.
\<close>

record frame_env =
  imdecode :: "image option outcome"
  detector :: poseDetector
  np :: numpy
  cv :: cv2
  imencode_ok :: bool
  send_bytes_ok :: bool
  send_text_ok :: bool

datatype event = Recv_Error | Recv frame_env

text \<open>
  The local variables of \<open>websocket_live_stream\<close>, and the messages sent so far.
\<close>

record session =
  count :: real
  direction :: int
  form :: int
  frame_count :: nat
  error_count :: nat
  correct_reps :: nat
  incorrect_reps :: nat
  sent :: "message list"

definition max_errors :: nat where
  "max_errors = 10"

definition initial_session :: session where
  "initial_session =
     \<lparr>count = 0, direction = 0, form = 0, frame_count = 0, error_count = 0,
      correct_reps = 0, incorrect_reps = 0, sent = []\<rparr>"

datatype control = Break | Continue

text \<open>Both decode-failure branches (lines 98-104 and 108-113) do the same.\<close>

definition decode_failed :: "session \<Rightarrow> control \<times> session" where
  "decode_failed s =
     (let s' = s\<lparr>error_count := error_count s + 1\<rparr> in
      if error_count s' \<ge> max_errors then (Break, s') else (Continue, s'))"

text \<open>
  Steps 3 and 4 of the loop body (lines 115-130) on a decoded frame. In the model every
  raise inside \<open>process_frame\<close> is one of its branches, so the handler of lines
  132-137 (a raise that escapes \<open>process_frame\<close>) has no case here.
\<close>

definition process_and_update :: "frame_env \<Rightarrow> image \<Rightarrow> session \<Rightarrow> frame_out \<times> string \<times> session" where
  "process_and_update env frame s =
     (case process_frame (np env) (cv env) (Some frame) (detector env)
             (count s) (direction s) (form s) of
        (processed_img, new_count, new_dir, new_form, feedback) \<Rightarrow>
          (let s' =
                 (if new_count \<noteq> count s then
                    (if new_form = 1 then s\<lparr>correct_reps := correct_reps s + 1\<rparr>
                     else s\<lparr>incorrect_reps := incorrect_reps s + 1\<rparr>)
                  else s)
           in (processed_img, feedback,
               s'\<lparr>count := new_count, direction := new_dir, form := new_form\<rparr>)))"

text \<open>Steps 5 to 7 of the loop body (lines 139-173).\<close>

definition encode_and_send :: "frame_env \<Rightarrow> frame_out \<Rightarrow> string \<Rightarrow> session \<Rightarrow> control \<times> session" where
  "encode_and_send env processed_img feedback s =
     (if \<not> imencode_ok env then (Continue, s)
      else if \<not> send_bytes_ok env then (Break, s)
      else
        (let s' = s\<lparr>sent := sent s @ [Binary processed_img]\<rparr>;
             json_data =
               \<lparr>json_count = py_int (count s'), json_feedback = feedback,
                json_form = form s', json_correct_reps = correct_reps s',
                json_incorrect_reps = incorrect_reps s'\<rparr>
         in if frame_count s' mod 10 = 0 then
              (if send_text_ok env then (Continue, s'\<lparr>sent := sent s' @ [Text json_data]\<rparr>)
               else (Break, s'))
            else (Continue, s')))"

text \<open>
  One iteration of the \<open>while True\<close> loop. \<open>Break\<close> leaves the loop and ends the
  session; \<open>Continue\<close> goes back to waiting for the next frame.
\<close>

definition loop_body :: "event \<Rightarrow> session \<Rightarrow> control \<times> session" where
  "loop_body ev s =
     (case ev of
        Recv_Error \<Rightarrow> (Break, s)
      | Recv env \<Rightarrow>
          (let s1 = s\<lparr>frame_count := frame_count s + 1\<rparr> in
           case imdecode env of
             Raised \<Rightarrow> decode_failed s1
           | Returned None \<Rightarrow> decode_failed s1
           | Returned (Some frame) \<Rightarrow>
               if length frame = 0 then decode_failed s1
               else
                 (case process_and_update env frame (s1\<lparr>error_count := 0\<rparr>) of
                    (processed_img, feedback, s2) \<Rightarrow>
                      encode_and_send env processed_img feedback s2)))"

text \<open>
  The loop on the events of a session, in order. When the events run out the loop is
  waiting in \<open>receive_bytes\<close>: the result is \<open>Continue\<close> with the state reached.
\<close>

fun run_loop :: "event list \<Rightarrow> session \<Rightarrow> control \<times> session" where
  "run_loop [] s = (Continue, s)"
| "run_loop (ev # evs) s =
     (case loop_body ev s of
        (Break, s') \<Rightarrow> (Break, s')
      | (Continue, s') \<Rightarrow> run_loop evs s')"

definition websocket_live_stream :: "event list \<Rightarrow> control \<times> session" where
  "websocket_live_stream evs = run_loop evs initial_session"

text \<open>Whether the frame of an event is decoded (the test of lines 94-113).\<close>

fun decodes :: "event \<Rightarrow> bool" where
  "decodes Recv_Error = False"
| "decodes (Recv env) =
     (case imdecode env of
        Raised \<Rightarrow> False
      | Returned None \<Rightarrow> False
      | Returned (Some frame) \<Rightarrow> length frame \<noteq> 0)"

text \<open>A received frame whose decoding fails.\<close>

fun decode_failure :: "event \<Rightarrow> bool" where
  "decode_failure Recv_Error = False"
| "decode_failure (Recv env) = (\<not> decodes (Recv env))"

fun is_Text :: "message \<Rightarrow> bool" where
  "is_Text (Text t) = True"
| "is_Text (Binary b) = False"


section \<open>Sample frames\<close>

text \<open>
  Concrete inputs for the examples below: a detector that finds a pose with the given
  elbow, shoulder and hip angles, a frame that decodes and goes through every stage with
  that detector, and a frame whose bytes do not decode. The sample frames have elbow
  angles at or beyond the ends of the range from 90 to 160, where \<open>np.interp\<close> answers
  with the value at that end; \<open>end_values\<close> is \<open>np.interp\<close> on those arguments.
\<close>

definition end_values :: numpy where
  "end_values = \<lparr>interp = (\<lambda>x xp fp. if x \<le> fst xp then fst fp else snd fp)\<rparr>"

definition steady_detector :: "real \<Rightarrow> real \<Rightarrow> real \<Rightarrow> poseDetector" where
  "steady_detector e s h =
     \<lparr>findPose = Returned,
      findPosition = (\<lambda>img. Returned [(12, 0, 0)]),
      findAngle = (\<lambda>img p1 p2 p3. Returned (if p2 = 14 then e else if p2 = 12 then s else h))\<rparr>"

definition pose_env :: "real \<Rightarrow> real \<Rightarrow> real \<Rightarrow> frame_env" where
  "pose_env e s h =
     \<lparr>imdecode = Returned (Some [0]), detector = steady_detector e s h,
      np = end_values, cv = \<lparr>drawing_ok = True, putText_ok = True\<rparr>,
      imencode_ok = True, send_bytes_ok = True, send_text_ok = True\<rparr>"

definition garbled_env :: frame_env where
  "garbled_env = (pose_env 0 0 0)\<lparr>imdecode := Returned None\<rparr>"


section \<open>Adding 0.5 to a count\<close>

text \<open>
  A real number whose scaled magnitude is an integer with no bit below the 53 leading
  ones is a binary64 number: rounding returns it. The halves of the integers up to
  \<open>2 ^ 53\<close> are of that kind, so adding 0.5 to a multiple of 0.5 of magnitude below
  \<open>2 ^ 52\<close> is exact. From \<open>2 ^ 52\<close> on the floats are \<open>2 ^ t\<close> apart in the
  binade from \<open>2 ^ (52 + t)\<close>, and the sum is rounded to that grid.
\<close>

lemma round_half_even_of_int: "round_half_even (of_int q) = q"
  by (simp add: round_half_even_def)

lemma round_binary64_scaled:
  fixes N :: int and sh :: nat
  assumes sc: "\<bar>z\<bar> * 2 ^ 1074 = of_int N"
    and sh: "sh = nat (bitlen N - 53)"
    and dv: "N = q * 2 ^ sh"
  shows "round_binary64 z = z"
proof -
  define P :: real where "P = 2 ^ 1074"
  have Ppos: "0 < P" unfolding P_def by (rule zero_less_power) simp
  from sc have scP: "\<bar>z\<bar> * P = of_int N" by (simp only: P_def)
  have n: "\<lfloor>\<bar>z\<bar> * P\<rfloor> = N" by (simp only: scP floor_of_int)
  from scP Ppos have az: "\<bar>z\<bar> = of_int N / P" by (simp add: field_simps)
  have N: "real_of_int N = of_int q * 2 ^ sh" by (simp add: dv)
  have q: "\<bar>z\<bar> / (2 ^ sh / P) = of_int q"
    using Ppos by (simp add: az N)
  have "round_binary64 z =
      sgn z * of_int (round_half_even (\<bar>z\<bar> / (2 ^ nat (bitlen \<lfloor>\<bar>z\<bar> * P\<rfloor> - 53) / P))) *
        (2 ^ nat (bitlen \<lfloor>\<bar>z\<bar> * P\<rfloor> - 53) / P)"
    unfolding round_binary64_def Let_def P_def ..
  also have "\<dots> = sgn z * of_int q * (2 ^ sh / P)"
    by (simp only: n sh [symmetric] q round_half_even_of_int)
  also have "\<dots> = sgn z * (of_int N / P)"
    by (simp add: N)
  also have "\<dots> = sgn z * \<bar>z\<bar>" by (simp only: az)
  also have "\<dots> = z" by (simp add: sgn_mult_abs)
  finally show ?thesis .
qed

lemma half_integer_exact:
  fixes m :: int
  assumes "\<bar>m\<bar> \<le> 2 ^ 53"
  shows "round_binary64 (of_int m / 2) = of_int m / 2"
proof (cases "m = 0")
  case True
  then show ?thesis by (simp add: round_binary64_def round_half_even_def)
next
  case False
  define a where "a = \<bar>m\<bar>"
  from False have apos: "0 < a" by (simp add: a_def)
  from assms have ale: "a \<le> 2 ^ 53" by (simp add: a_def)
  define Q :: int where "Q = 2 ^ 1073"
  define N where "N = a * Q"
  define sh where "sh = nat (bitlen N - 53)"
  have bl: "bitlen N = bitlen a + 1073"
    unfolding N_def Q_def by (simp only: bitlen_pow2 [OF apos])
  have P: "(2::real) ^ 1074 = 2 * of_int Q"
  proof -
    have "(2::real) ^ Suc 1073 = 2 * 2 ^ 1073" by (rule power_Suc)
    then show ?thesis by (simp add: Q_def)
  qed
  have sc: "\<bar>real_of_int m / 2\<bar> * 2 ^ 1074 = of_int N"
    by (simp only: P) (simp add: N_def a_def)
  have "\<exists>q. N = q * 2 ^ sh"
  proof (cases "bitlen a \<le> 53")
    case True
    then have "sh \<le> 1073" by (simp add: sh_def bl)
    then have "(2::int) ^ sh dvd 2 ^ 1073" by (rule le_imp_power_dvd)
    then have "(2::int) ^ sh dvd N" unfolding N_def Q_def by (rule dvd_mult)
    then obtain r where "N = 2 ^ sh * r" by (auto simp: dvd_def)
    then have "N = r * 2 ^ sh" by (simp only: mult.commute)
    then show ?thesis ..
  next
    case False
    then have "54 \<le> bitlen a" by simp
    then have "(2::int) ^ (nat 54 - 1) \<le> a" by (simp only: bitlen_ge_iff_power) simp
    then have "(2::int) ^ 53 \<le> a" by simp
    with ale have a: "a = 2 ^ 53" by simp
    have "bitlen a = 54"
      unfolding a using bitlen_twopow_add_eq [of 0 53] by simp
    then have s: "sh = 1074" by (simp add: sh_def bl)
    have "N = 2 ^ (53 + 1073)" unfolding N_def a Q_def by (rule power_add [symmetric])
    also have "\<dots> = (2::int) ^ (52 + 1074)" by simp
    also have "\<dots> = 2 ^ 52 * 2 ^ 1074" by (rule power_add)
    finally have "N = 2 ^ 52 * 2 ^ sh" by (simp only: s)
    then show ?thesis ..
  qed
  then obtain q where dv: "N = q * 2 ^ sh" ..
  show ?thesis by (rule round_binary64_scaled [OF sc sh_def dv])
qed

lemma float_add_half_exact:
  assumes "exact_half_steps c"
  shows "float_add c (1 / 2) = c + 1 / 2"
proof -
  define k where "k = \<lfloor>2 * c\<rfloor>"
  from assms have c: "c = of_int k / 2" and b: "\<bar>c\<bar> < 2 ^ 52"
    by (simp_all add: exact_half_steps_def k_def)
  from b c have "\<bar>real_of_int k\<bar> < 2 ^ 53" by simp
  then have "real_of_int \<bar>k\<bar> < real_of_int (2 ^ 53)" by simp
  then have "\<bar>k\<bar> < 2 ^ 53" by (simp only: of_int_less_iff)
  then have m: "\<bar>k + 1\<bar> \<le> 2 ^ 53" by simp
  have e: "c + 1 / 2 = of_int (k + 1) / 2" by (simp add: c add_divide_distrib)
  show ?thesis
    unfolding float_add_def e by (rule half_integer_exact [OF m])
qed


lemma round_binary64_large:
  fixes t :: nat
  assumes lo: "2 ^ (52 + t) \<le> \<bar>z\<bar>" and hi: "\<bar>z\<bar> < 2 ^ (53 + t)"
  shows "round_binary64 z = sgn z * of_int (round_half_even (\<bar>z\<bar> / 2 ^ t)) * 2 ^ t"
proof -
  define P :: real where "P = 2 ^ 1074"
  have Ppos: "0 < P" unfolding P_def by (rule zero_less_power) simp
  define w :: nat where "w = 52 + t + 1074"
  define n where "n = \<lfloor>\<bar>z\<bar> * P\<rfloor>"
  have "real_of_int (2 ^ w) = 2 ^ (52 + t) * P"
    by (simp only: w_def P_def power_add of_int_power) simp
  also have "\<dots> \<le> \<bar>z\<bar> * P" using lo Ppos by simp
  finally have "2 ^ w \<le> n" unfolding n_def by (simp only: le_floor_iff)
  have "\<bar>z\<bar> * P < 2 ^ (53 + t) * P" using hi Ppos by simp
  also have "\<dots> = real_of_int (2 ^ Suc w)"
    by (simp only: w_def P_def power_add power_Suc of_int_power) simp
  finally have "n < 2 ^ Suc w" unfolding n_def by (simp only: floor_less_iff)
  then have "n - 2 ^ w < 2 ^ w" by simp
  with \<open>2 ^ w \<le> n\<close> have "bitlen (2 ^ w + (n - 2 ^ w)) = int w + 1"
    using bitlen_twopow_add_eq [of "n - 2 ^ w" w] by simp
  then have "bitlen n = int w + 1" by simp
  then have sh: "nat (bitlen n - 53) = t + 1074" by (simp add: w_def)
  have ulp: "(2::real) ^ (t + 1074) / P = 2 ^ t"
    using Ppos by (simp add: P_def power_add)
  show ?thesis
    unfolding round_binary64_def Let_def P_def [symmetric] n_def [symmetric] sh ulp ..
qed

lemma round_at_2_53: "float_add (2 ^ 53) (1 / 2) = 2 ^ 53"
proof -
  have "round_binary64 (2 ^ 53 + 1 / 2) =
      sgn (2 ^ 53 + 1 / 2 :: real) * of_int (round_half_even (\<bar>2 ^ 53 + 1 / 2\<bar> / 2 ^ 1)) * 2 ^ 1"
    by (rule round_binary64_large) simp_all
  also have "\<dots> = 2 ^ 53" by (simp add: round_half_even_def)
  finally show ?thesis by (simp only: float_add_def)
qed

lemma round_above_2_52: "float_add (2 ^ 52 + 1) (1 / 2) = 2 ^ 52 + 2"
proof -
  have "round_binary64 (2 ^ 52 + 1 + 1 / 2) =
      sgn (2 ^ 52 + 1 + 1 / 2 :: real) *
        of_int (round_half_even (\<bar>2 ^ 52 + 1 + 1 / 2\<bar> / 2 ^ 0)) * 2 ^ 0"
    by (rule round_binary64_large) simp_all
  also have "\<dots> = 2 ^ 52 + 2" by (simp add: round_half_even_def)
  finally show ?thesis by (simp only: float_add_def)
qed

text \<open>
  Rounding is monotone on the non-negative numbers and odd, so the float sum of a
  binary64 number and 0.5 is never below that number.
\<close>

lemma round_half_even_mono: "s \<le> t \<Longrightarrow> round_half_even s \<le> round_half_even t"
proof -
  assume st: "s \<le> t"
  have fl: "\<lfloor>s\<rfloor> \<le> \<lfloor>t\<rfloor>" using st by (rule floor_mono)
  show ?thesis
  proof (cases "\<lfloor>s\<rfloor> = \<lfloor>t\<rfloor>")
    case True
    with st have "s - of_int \<lfloor>s\<rfloor> \<le> t - of_int \<lfloor>t\<rfloor>" by simp
    with True show ?thesis by (auto simp: round_half_even_def Let_def)
  next
    case False
    with fl have "\<lfloor>s\<rfloor> + 1 \<le> \<lfloor>t\<rfloor>" by simp
    then show ?thesis by (auto simp: round_half_even_def Let_def)
  qed
qed

lemma round_half_even_ge: "of_int k \<le> t \<Longrightarrow> k \<le> round_half_even t"
  using round_half_even_mono [of "of_int k" t] by (simp add: round_half_even_of_int)

lemma round_half_even_le: "t \<le> of_int k \<Longrightarrow> round_half_even t \<le> k"
  using round_half_even_mono [of t "of_int k"] by (simp add: round_half_even_of_int)

lemma round_binary64_minus: "round_binary64 (- z) = - round_binary64 z"
  by (simp add: round_binary64_def Let_def)

lemma round_binary64_nonneg: "0 \<le> z \<Longrightarrow> 0 \<le> round_binary64 z"
proof -
  assume z: "0 \<le> z"
  have "0 \<le> round_half_even (\<bar>z\<bar> / (2 ^ nat (bitlen \<lfloor>\<bar>z\<bar> * 2 ^ 1074\<rfloor> - 53) / 2 ^ 1074))"
    by (rule round_half_even_ge) simp
  with z show ?thesis
    unfolding round_binary64_def Let_def
    by (intro mult_nonneg_nonneg divide_nonneg_nonneg) (simp_all add: sgn_if)
qed


lemma round_binary64_nonneg_eq:
  assumes "0 \<le> z"
  shows "round_binary64 z =
     of_int (round_half_even (z / (2 ^ nat (bitlen \<lfloor>z * 2 ^ 1074\<rfloor> - 53) / 2 ^ 1074))) *
       (2 ^ nat (bitlen \<lfloor>z * 2 ^ 1074\<rfloor> - 53) / 2 ^ 1074)"
proof (cases "z = 0")
  case True
  then show ?thesis by (simp add: round_binary64_def round_half_even_def)
next
  case False
  with assms have "0 < z" by simp
  then show ?thesis by (simp add: round_binary64_def Let_def)
qed

lemma bitlen_mono:
  assumes "a \<le> b"
  shows "bitlen a \<le> bitlen b"
proof (cases "0 < b")
  case True
  from bitlen_bounds [OF True] assms have "a < 2 ^ nat (bitlen b)" by simp
  then show ?thesis by (simp add: bitlen_le_iff_power bitlen_nonneg)
next
  case False
  with assms have "a \<le> 0" "b \<le> 0" by simp_all
  then show ?thesis by (simp add: bitlen_eq_zero_iff [THEN iffD2])
qed

lemma round_binary64_mono_nonneg:
  assumes x0: "0 \<le> x" and xy: "x \<le> y"
  shows "round_binary64 x \<le> round_binary64 y"
proof -
  define P :: real where "P = 2 ^ 1074"
  have Ppos: "0 < P" unfolding P_def by (rule zero_less_power) simp
  from x0 xy have y0: "0 \<le> y" by simp
  define nx where "nx = \<lfloor>x * P\<rfloor>"
  define ny where "ny = \<lfloor>y * P\<rfloor>"
  define sx where "sx = nat (bitlen nx - 53)"
  define sy where "sy = nat (bitlen ny - 53)"
  have rx: "round_binary64 x = of_int (round_half_even (x / (2 ^ sx / P))) * (2 ^ sx / P)"
    unfolding round_binary64_nonneg_eq [OF x0] sx_def nx_def P_def ..
  have ry: "round_binary64 y = of_int (round_half_even (y / (2 ^ sy / P))) * (2 ^ sy / P)"
    unfolding round_binary64_nonneg_eq [OF y0] sy_def ny_def P_def ..
  have nxy: "nx \<le> ny"
    unfolding nx_def ny_def using xy Ppos by (intro floor_mono) simp
  have nx0: "0 \<le> nx" unfolding nx_def using x0 Ppos by simp
  have sxy: "sx \<le> sy"
    unfolding sx_def sy_def using bitlen_mono [OF nxy] by simp
  show ?thesis
  proof (cases "sx = sy")
    case True
    have "x / (2 ^ sy / P) \<le> y / (2 ^ sy / P)"
      using xy Ppos by (intro divide_right_mono) simp_all
    then have "round_half_even (x / (2 ^ sy / P)) \<le> round_half_even (y / (2 ^ sy / P))"
      by (rule round_half_even_mono)
    then have "real_of_int (round_half_even (x / (2 ^ sy / P))) * (2 ^ sy / P) \<le>
        real_of_int (round_half_even (y / (2 ^ sy / P))) * (2 ^ sy / P)"
      using Ppos by (intro mult_right_mono) simp_all
    then show ?thesis by (simp only: rx ry True)
  next
    case False
    with sxy have lt: "sx < sy" by simp
    have nxb: "nx + 1 \<le> 2 ^ nat (bitlen nx)"
    proof (cases "0 < nx")
      case True
      from bitlen_bounds [OF True] show ?thesis by simp
    next
      case False
      with nx0 have "nx = 0" by simp
      then show ?thesis by simp
    qed
    have "nat (bitlen nx) \<le> 53 + sx" unfolding sx_def by simp
    then have pw: "(2::int) ^ nat (bitlen nx) \<le> 2 ^ (53 + sx)"
      by (intro power_increasing) simp_all
    have "nx + 1 \<le> 2 ^ (53 + sx)" by (rule order_trans [OF nxb pw])
    then have "real_of_int (nx + 1) \<le> real_of_int (2 ^ (53 + sx))" by (simp only: of_int_le_iff)
    moreover have "x * P < real_of_int (nx + 1)" unfolding nx_def by simp
    ultimately have "x * P < 2 ^ 53 * 2 ^ sx" by (simp add: power_add)
    then have "x * P / 2 ^ sx < 2 ^ 53" by (simp add: field_simps)
    then have "x / (2 ^ sx / P) \<le> real_of_int (2 ^ 53)" by simp
    then have "round_half_even (x / (2 ^ sx / P)) \<le> 2 ^ 53" by (rule round_half_even_le)
    then have "real_of_int (round_half_even (x / (2 ^ sx / P))) \<le> real_of_int (2 ^ 53)"
      by (simp only: of_int_le_iff)
    then have "real_of_int (round_half_even (x / (2 ^ sx / P))) * (2 ^ sx / P) \<le>
        real_of_int (2 ^ 53) * (2 ^ sx / P)"
      using Ppos by (intro mult_right_mono) simp_all
    then have up: "round_binary64 x \<le> 2 ^ (53 + sx) / P"
      by (simp add: rx power_add)
    from lt have big: "53 < bitlen ny" unfolding sy_def by simp
    then have nypos: "0 < ny" using bitlen_eq_zero_iff [of ny] by (cases "0 < ny") simp_all
    from big have e: "nat (bitlen ny - 1) = 52 + sy" unfolding sy_def by simp
    from bitlen_bounds [OF nypos] have "(2::int) ^ (52 + sy) \<le> ny" by (simp only: e)
    then have "real_of_int (2 ^ (52 + sy)) \<le> real_of_int ny" by (simp only: of_int_le_iff)
    moreover have "real_of_int ny \<le> y * P" unfolding ny_def by simp
    ultimately have "2 ^ 52 * 2 ^ sy \<le> y * P" by (simp add: power_add)
    then have "2 ^ 52 \<le> y * P / 2 ^ sy" by (simp add: field_simps)
    then have "real_of_int (2 ^ 52) \<le> y / (2 ^ sy / P)" by simp
    then have "2 ^ 52 \<le> round_half_even (y / (2 ^ sy / P))" by (rule round_half_even_ge)
    then have "real_of_int (2 ^ 52) \<le> real_of_int (round_half_even (y / (2 ^ sy / P)))"
      by (simp only: of_int_le_iff)
    then have "real_of_int (2 ^ 52) * (2 ^ sy / P) \<le>
        real_of_int (round_half_even (y / (2 ^ sy / P))) * (2 ^ sy / P)"
      using Ppos by (intro mult_right_mono) simp_all
    then have lo: "2 ^ (52 + sy) / P \<le> round_binary64 y"
      by (simp add: ry power_add)
    from lt have "53 + sx \<le> 52 + sy" by simp
    then have "(2::real) ^ (53 + sx) \<le> 2 ^ (52 + sy)"
      by (intro power_increasing) simp_all
    then have "(2::real) ^ (53 + sx) / P \<le> 2 ^ (52 + sy) / P"
      using Ppos by (intro divide_right_mono) simp_all
    with up lo show ?thesis by simp
  qed
qed

lemma float_add_half_ge:
  assumes "binary64 c"
  shows "c \<le> float_add c (1 / 2)"
proof -
  consider "0 \<le> c" | "c < 0" "c + 1 / 2 \<le> 0" | "c < 0" "0 < c + 1 / 2" by linarith
  then show ?thesis
  proof cases
    case 1
    then have "round_binary64 c \<le> round_binary64 (c + 1 / 2)"
      by (intro round_binary64_mono_nonneg) simp_all
    with assms show ?thesis by (simp add: float_add_def binary64_def)
  next
    case 2
    then have "round_binary64 (- (c + 1 / 2)) \<le> round_binary64 (- c)"
      by (intro round_binary64_mono_nonneg) simp_all
    then have "- round_binary64 (c + 1 / 2) \<le> - round_binary64 c"
      by (simp only: round_binary64_minus)
    with assms show ?thesis by (simp add: float_add_def binary64_def)
  next
    case 3
    then have "0 \<le> round_binary64 (c + 1 / 2)" by (intro round_binary64_nonneg) simp
    with 3 show ?thesis by (simp add: float_add_def)
  qed
qed

lemma exact_half_steps_binary64:
  assumes "exact_half_steps c"
  shows "binary64 c"
proof -
  define k where "k = \<lfloor>2 * c\<rfloor>"
  from assms have c: "c = of_int k / 2" and b: "\<bar>c\<bar> < 2 ^ 52"
    by (simp_all add: exact_half_steps_def k_def)
  from b c have "\<bar>real_of_int k\<bar> < 2 ^ 53" by simp
  then have "real_of_int \<bar>k\<bar> < real_of_int (2 ^ 53)" by simp
  then have "\<bar>k\<bar> < 2 ^ 53" by (simp only: of_int_less_iff)
  then have m: "\<bar>k\<bar> \<le> 2 ^ 53" by simp
  show ?thesis
    unfolding binary64_def c by (rule half_integer_exact [OF m])
qed

text \<open>The same two sums, with the powers written out.\<close>

lemma float_add_half_at_2_53:
  "float_add 9007199254740992 (1 / 2) = 9007199254740992"
  using round_at_2_53 by simp

lemma float_add_half_above_2_52:
  "float_add 4503599627370497 (1 / 2) = 4503599627370498"
  using round_above_2_52 by simp

lemmas session_eval =
  websocket_live_stream_def initial_session_def loop_body_def decode_failed_def max_errors_def
  pose_env_def garbled_env_def steady_detector_def end_values_def process_and_update_def
  process_frame_def draw_ui_def update_feedback_and_count_def encode_and_send_def Let_def
  py_int_def float_add_half_exact exact_half_steps_def


section \<open>Properties of the rep state machine\<close>

text \<open>
  Claim C3, as the code has it. In a call whose form flag is 1 after the
  starting-position check (the posture is valid or the flag given is 1): in the down
  posture the feedback is "Good - Push Up" and, when the direction is 0, the count
  becomes the float sum of the count and 0.5 and the direction 1; else in the up posture
  the feedback is "Good - Go Down" and, when the direction is 1, the count becomes that
  sum and the direction 0; in every other case count and direction are unchanged, and in
  neither posture the feedback is "Fix Form". For a count that is a multiple of 0.5 of
  magnitude below 2^52 (every count a session reaches) the sum is the count plus 0.5,
  and the count grows by 0.5 with the direction flipped exactly when the direction was 0
  (down posture) or 1 (up posture).
\<close>

theorem update_phases:
  assumes "(elbow > 160 \<and> shoulder > 40 \<and> hip > 160) \<or> frm = 1"
    and "update_feedback_and_count elbow shoulder hip dir cnt frm = (feedback, cnt', dir', frm')"
  shows "(elbow \<le> 90 \<and> hip > 160 \<longrightarrow>
            feedback = ''Good - Push Up'' \<and>
            (dir = 0 \<longrightarrow> cnt' = float_add cnt (1 / 2) \<and> dir' = 1) \<and>
            (dir \<noteq> 0 \<longrightarrow> cnt' = cnt \<and> dir' = dir)) \<and>
         (\<not> (elbow \<le> 90 \<and> hip > 160) \<and> elbow > 160 \<and> shoulder > 40 \<and> hip > 160 \<longrightarrow>
            feedback = ''Good - Go Down'' \<and>
            (dir = 1 \<longrightarrow> cnt' = float_add cnt (1 / 2) \<and> dir' = 0) \<and>
            (dir \<noteq> 1 \<longrightarrow> cnt' = cnt \<and> dir' = dir)) \<and>
         (\<not> (elbow \<le> 90 \<and> hip > 160) \<and> \<not> (elbow > 160 \<and> shoulder > 40 \<and> hip > 160) \<longrightarrow>
            feedback = ''Fix Form'' \<and> cnt' = cnt \<and> dir' = dir) \<and>
         (exact_half_steps cnt \<longrightarrow>
            float_add cnt (1 / 2) = cnt + 1 / 2 \<and>
            (elbow \<le> 90 \<and> hip > 160 \<longrightarrow>
               (dir = 0 \<longleftrightarrow> cnt' = cnt + 1 / 2 \<and> dir' = 1)) \<and>
            (\<not> (elbow \<le> 90 \<and> hip > 160) \<and> elbow > 160 \<and> shoulder > 40 \<and> hip > 160 \<longrightarrow>
               (dir = 1 \<longleftrightarrow> cnt' = cnt + 1 / 2 \<and> dir' = 0)))"
proof -
  have branches:
    "(elbow \<le> 90 \<and> hip > 160 \<longrightarrow>
        feedback = ''Good - Push Up'' \<and>
        (dir = 0 \<longrightarrow> cnt' = float_add cnt (1 / 2) \<and> dir' = 1) \<and>
        (dir \<noteq> 0 \<longrightarrow> cnt' = cnt \<and> dir' = dir)) \<and>
     (\<not> (elbow \<le> 90 \<and> hip > 160) \<and> elbow > 160 \<and> shoulder > 40 \<and> hip > 160 \<longrightarrow>
        feedback = ''Good - Go Down'' \<and>
        (dir = 1 \<longrightarrow> cnt' = float_add cnt (1 / 2) \<and> dir' = 0) \<and>
        (dir \<noteq> 1 \<longrightarrow> cnt' = cnt \<and> dir' = dir)) \<and>
     (\<not> (elbow \<le> 90 \<and> hip > 160) \<and> \<not> (elbow > 160 \<and> shoulder > 40 \<and> hip > 160) \<longrightarrow>
        feedback = ''Fix Form'' \<and> cnt' = cnt \<and> dir' = dir)"
    using assms by (auto simp: update_feedback_and_count_def split: if_splits)
  have exact: "float_add cnt (1 / 2) = cnt + 1 / 2 \<and>
      (elbow \<le> 90 \<and> hip > 160 \<longrightarrow> (dir = 0 \<longleftrightarrow> cnt' = cnt + 1 / 2 \<and> dir' = 1)) \<and>
      (\<not> (elbow \<le> 90 \<and> hip > 160) \<and> elbow > 160 \<and> shoulder > 40 \<and> hip > 160 \<longrightarrow>
         (dir = 1 \<longleftrightarrow> cnt' = cnt + 1 / 2 \<and> dir' = 0))"
    if "exact_half_steps cnt"
    using branches float_add_half_exact [OF that] by auto
  from branches exact show ?thesis by blast
qed

text \<open>
  The three branches at concrete angles: a descent from direction 0, an ascent from
  direction 1 (with the flag set in the same call), and a posture that is neither.
\<close>

theorem update_phases_witness:
  "exact_half_steps 0 \<and> exact_half_steps (1 / 2) \<and>
   update_feedback_and_count 80 50 170 0 0 1 = (''Good - Push Up'', 1 / 2, 1, 1) \<and>
   update_feedback_and_count 170 50 170 1 (1 / 2) 0 = (''Good - Go Down'', 1, 0, 1) \<and>
   update_feedback_and_count 120 50 170 1 (1 / 2) 1 = (''Fix Form'', 1 / 2, 1, 1)"
proof -
  have x: "exact_half_steps 0" "exact_half_steps (1 / 2)"
    by (simp_all add: exact_half_steps_def)
  have a: "update_feedback_and_count 80 50 170 0 0 1 = (''Good - Push Up'', 1 / 2, 1, 1)"
    by (simp add: update_feedback_and_count_def float_add_half_exact [OF x(1)])
  have b: "update_feedback_and_count 170 50 170 1 (1 / 2) 0 = (''Good - Go Down'', 1, 0, 1)"
    by (simp add: update_feedback_and_count_def float_add_half_exact [OF x(2)])
  have c: "update_feedback_and_count 120 50 170 1 (1 / 2) 1 = (''Fix Form'', 1 / 2, 1, 1)"
    by (simp add: update_feedback_and_count_def)
  from update_phases [OF _ a] update_phases [OF _ b] update_phases [OF _ c]
  show ?thesis using a b c x by simp
qed

text \<open>
  Claim C3 as stated fails for a call with a count at which adding 0.5 rounds. At count
  2^53, in the down posture with direction 0 and form 1, the direction becomes 1 and the
  count returned is 2^53: it has not grown by 0.5.
\<close>

theorem update_phases_counterexample:
  "update_feedback_and_count 80 50 170 0 (2 ^ 53) 1 = (''Good - Push Up'', 2 ^ 53, 1, 1) \<and>
   (2 ^ 53 :: real) \<noteq> 2 ^ 53 + 1 / 2"
  by (simp add: update_feedback_and_count_def float_add_half_at_2_53)

text \<open>
  Claim C5. The form flag is sticky: a call given form 1 returns form 1, a call with a
  valid starting posture (elbow above 160, shoulder above 40, hip above 160) returns
  form 1, and from a state with form 1 the flag is still 1 after any further sequence of
  frames, whatever their angles.
\<close>

theorem form_sticky:
  "(frm = 1 \<longrightarrow> snd (snd (snd (update_feedback_and_count elbow shoulder hip dir cnt frm))) = 1) \<and>
   (elbow > 160 \<and> shoulder > 40 \<and> hip > 160 \<longrightarrow>
      snd (snd (snd (update_feedback_and_count elbow shoulder hip dir cnt frm))) = 1) \<and>
   (snd (snd st) = 1 \<longrightarrow> snd (snd (feed_angles later st)) = 1)"
proof -
  have step: "frm0 = 1 \<or> (e > 160 \<and> s > 40 \<and> h > 160) \<Longrightarrow>
      snd (snd (snd (update_feedback_and_count e s h d c frm0))) = 1" for e s h d c frm0
    by (auto simp: update_feedback_and_count_def)
  have run: "snd (snd st) = 1 \<Longrightarrow> snd (snd (feed_angles later st)) = 1"
  proof (induction later st rule: feed_angles.induct)
    case (1 st)
    then show ?case by simp
  next
    case (2 e s h rest c d f)
    from "2.prems" have f1: "f = 1" by simp
    obtain fb c' d' f' where u: "update_feedback_and_count e s h d c f = (fb, c', d', f')"
      by (cases "update_feedback_and_count e s h d c f") auto
    with step [of f e s h d c] f1 have "f' = 1" by simp
    with "2.IH" [OF u [symmetric]] u show ?case by simp
  qed
  from step [of frm elbow shoulder hip dir cnt] run show ?thesis by blast
qed

text \<open>
  A call given form 1 with angles far from any posture, a call given form 0 in the
  starting posture, and three later frames.
\<close>

theorem form_sticky_witness:
  "snd (snd (snd (update_feedback_and_count 100 0 0 0 0 1))) = 1 \<and>
   snd (snd (snd (update_feedback_and_count 170 50 170 0 0 0))) = 1 \<and>
   snd (snd (feed_angles [(100, 0, 0), (80, 50, 170), (10, 10, 10)] (0, 0, 1))) = 1"
  using form_sticky [of 1 100 0 0 0 0 "(0, 0, 1)" "[(100, 0, 0), (80, 50, 170), (10, 10, 10)]"]
    form_sticky [of 0 170 50 170 0 0 "(0, 0, 1)" "[]"]
  by simp

text \<open>
  Claim C6, as the code has it. A call returns the count it was given or the float sum
  of that count and 0.5 (one addition at most), never lowers a count that is a binary64
  number, and returns direction and form in {0, 1} when it was given them in {0, 1}.
  For a count that is a multiple of 0.5 of magnitude below 2^52 the call raises the
  count by 0 or by exactly 0.5.
\<close>

theorem count_step_bounds:
  assumes "update_feedback_and_count elbow shoulder hip dir cnt frm = (feedback, cnt', dir', frm')"
  shows "(cnt' = cnt \<or> cnt' = float_add cnt (1 / 2)) \<and>
         (binary64 cnt \<longrightarrow> cnt \<le> cnt') \<and>
         (exact_half_steps cnt \<longrightarrow> cnt' - cnt = 0 \<or> cnt' - cnt = 1 / 2) \<and>
         (dir \<in> {0, 1} \<and> frm \<in> {0, 1} \<longrightarrow> dir' \<in> {0, 1} \<and> frm' \<in> {0, 1})"
proof -
  have one: "cnt' = cnt \<or> cnt' = float_add cnt (1 / 2)"
    using assms by (auto simp: update_feedback_and_count_def split: if_splits)
  have flags: "dir \<in> {0, 1} \<and> frm \<in> {0, 1} \<longrightarrow> dir' \<in> {0, 1} \<and> frm' \<in> {0, 1}"
    using assms by (auto simp: update_feedback_and_count_def split: if_splits)
  have up: "cnt \<le> cnt'" if "binary64 cnt"
    using one float_add_half_ge [OF that] by auto
  have "cnt' - cnt = 0 \<or> cnt' - cnt = 1 / 2" if "exact_half_steps cnt"
    using one float_add_half_exact [OF that] by auto
  with one up flags show ?thesis by blast
qed

text \<open>
  A descent counted from the state (count 3, direction 0, form 1).
\<close>

theorem count_step_bounds_witness:
  "binary64 3 \<and> exact_half_steps 3 \<and>
   update_feedback_and_count 80 50 170 0 3 1 = (''Good - Push Up'', 7 / 2, 1, 1) \<and>
   (3::real) \<le> 7 / 2 \<and> (7 / 2 - 3 = (1 / 2 :: real)) \<and> (1::int) \<in> {0, 1}"
proof -
  have x: "exact_half_steps 3" by (simp add: exact_half_steps_def)
  have a: "update_feedback_and_count 80 50 170 0 3 1 = (''Good - Push Up'', 7 / 2, 1, 1)"
    by (simp add: update_feedback_and_count_def float_add_half_exact [OF x])
  from count_step_bounds [OF a] a x exact_half_steps_binary64 [OF x] show ?thesis by simp
qed

text \<open>
  Claim C6 as stated fails for a call with a count at which adding 0.5 rounds. At count
  2^52 + 1, in the down posture with direction 0 and form 1, the count returned is
  2^52 + 2: it has grown by 1.
\<close>

theorem count_step_bounds_counterexample:
  "update_feedback_and_count 80 50 170 0 (2 ^ 52 + 1) 1 =
     (''Good - Push Up'', 2 ^ 52 + 2, 1, 1) \<and>
   (2 ^ 52 + 2) - (2 ^ 52 + 1) = (1 :: real)"
  by (simp add: update_feedback_and_count_def float_add_half_above_2_52)

text \<open>
  In the down posture with form 1, a call adds 0.5 and sets direction to 1 when the
  direction is 0, and changes nothing otherwise; further down frames then change
  nothing.
\<close>

lemma update_down_step:
  "elbow \<le> 90 \<Longrightarrow> hip > 160 \<Longrightarrow>
   update_feedback_and_count elbow shoulder hip dir cnt 1 =
     (''Good - Push Up'', (if dir = 0 then float_add cnt (1 / 2) else cnt),
      (if dir = 0 then 1 else dir), 1)"
  by (simp add: update_feedback_and_count_def)

lemma feed_down_settled:
  "\<forall>(elbow, shoulder, hip) \<in> set xs. elbow \<le> 90 \<and> hip > 160 \<Longrightarrow> dir \<noteq> 0 \<Longrightarrow>
   feed_angles xs (cnt, dir, 1) = (cnt, dir, 1)"
proof (induction xs)
  case Nil
  show ?case by simp
next
  case (Cons x xs)
  obtain e s h where x: "x = (e, s, h)" by (cases x)
  from Cons.prems(1) x have dn: "e \<le> 90" "h > 160" by simp_all
  from Cons.prems(1) have rest: "\<forall>(elbow, shoulder, hip) \<in> set xs. elbow \<le> 90 \<and> hip > 160"
    by simp
  show ?case
    using Cons.IH [OF rest Cons.prems(2)] Cons.prems(2)
    by (simp add: x update_down_step [OF dn])
qed

text \<open>
  Claim C7, as the code has it. From a state with form 1, any non-empty run of frames
  that all satisfy the down condition (elbow at most 90, hip above 160) performs the
  addition of 0.5 once when the starting direction is 0 and never when it is 1 (or any
  other value): after its first application the down step changes nothing. For a
  starting count that is a multiple of 0.5 of magnitude below 2^52 the total increase
  is exactly 0.5 from direction 0, and 0 otherwise.
\<close>

theorem down_idempotent:
  assumes "xs \<noteq> []"
    and "\<forall>(elbow, shoulder, hip) \<in> set xs. elbow \<le> 90 \<and> hip > 160"
  shows "feed_angles xs (cnt, dir, 1) =
           ((if dir = 0 then float_add cnt (1 / 2) else cnt), (if dir = 0 then 1 else dir), 1) \<and>
         (exact_half_steps cnt \<longrightarrow>
            feed_angles xs (cnt, dir, 1) =
              ((if dir = 0 then cnt + 1 / 2 else cnt), (if dir = 0 then 1 else dir), 1))"
proof -
  from assms(1) obtain x rest where xs: "xs = x # rest" by (cases xs) auto
  obtain e s h where x: "x = (e, s, h)" by (cases x)
  from assms(2) xs x have dn: "e \<le> 90" "h > 160" by simp_all
  from assms(2) xs have rest: "\<forall>(elbow, shoulder, hip) \<in> set rest. elbow \<le> 90 \<and> hip > 160"
    by simp
  have run: "feed_angles xs (cnt, dir, 1) =
      ((if dir = 0 then float_add cnt (1 / 2) else cnt), (if dir = 0 then 1 else dir), 1)"
  proof (cases "dir = 0")
    case True
    have "feed_angles rest (float_add cnt (1 / 2), 1, 1) = (float_add cnt (1 / 2), 1, 1)"
      by (rule feed_down_settled [OF rest]) simp
    with True show ?thesis by (simp add: xs x update_down_step [OF dn])
  next
    case False
    with feed_down_settled [OF rest False] show ?thesis
      by (simp add: xs x update_down_step [OF dn])
  qed
  have "feed_angles xs (cnt, dir, 1) =
      ((if dir = 0 then cnt + 1 / 2 else cnt), (if dir = 0 then 1 else dir), 1)"
    if "exact_half_steps cnt"
    using run float_add_half_exact [OF that] by simp
  with run show ?thesis by blast
qed

text \<open>
  Three down frames from direction 0, and two from direction 1.
\<close>

theorem down_idempotent_witness:
  "exact_half_steps 2 \<and> exact_half_steps (5 / 2) \<and>
   feed_angles [(80, 50, 170), (85, 20, 165), (90, 0, 161)] (2, 0, 1) = (5 / 2, 1, 1) \<and>
   feed_angles [(80, 50, 170), (85, 20, 165)] (5 / 2, 1, 1) = (5 / 2, 1, 1)"
proof -
  have x: "exact_half_steps 2" "exact_half_steps (5 / 2)"
    by (simp_all add: exact_half_steps_def)
  from down_idempotent [of "[(80, 50, 170), (85, 20, 165), (90, 0, 161)]" 2 0]
    down_idempotent [of "[(80, 50, 170), (85, 20, 165)]" "5 / 2" 1] x
  show ?thesis by (simp add: float_add_half_exact)
qed

text \<open>
  Claim C7 as stated fails for a run that starts at a count at which adding 0.5 rounds.
  From count 2^53 with direction 0 and form 1, two down frames set the direction to 1
  and leave the count at 2^53: the total increase is 0, not 0.5.
\<close>

theorem down_idempotent_counterexample:
  "feed_angles [(80, 50, 170), (80, 50, 170)] (2 ^ 53, 0, 1) = (2 ^ 53, 1, 1) \<and>
   (2 ^ 53 :: real) - 2 ^ 53 \<noteq> 1 / 2"
  by (simp add: update_feedback_and_count_def float_add_half_at_2_53)

text \<open>
  Claim C9, as the code has it. The starting-position check runs before the phases are
  evaluated: a call given form 0 in the valid posture returns form 1 with feedback
  "Good - Go Down" (not "Get into starting position"), and when the direction is 1 it
  adds 0.5 to the count as floats and sets direction to 0 in the same call. For a count
  that is a multiple of 0.5 of magnitude below 2^52 the count returned is the count
  plus 0.5.
\<close>

theorem posture_check_first:
  assumes "elbow > 160" "shoulder > 40" "hip > 160"
  shows "update_feedback_and_count elbow shoulder hip dir cnt 0 =
           (''Good - Go Down'', (if dir = 1 then float_add cnt (1 / 2) else cnt),
            (if dir = 1 then 0 else dir), 1) \<and>
         (exact_half_steps cnt \<longrightarrow>
            update_feedback_and_count elbow shoulder hip dir cnt 0 =
              (''Good - Go Down'', (if dir = 1 then cnt + 1 / 2 else cnt),
               (if dir = 1 then 0 else dir), 1))"
proof -
  have call: "update_feedback_and_count elbow shoulder hip dir cnt 0 =
      (''Good - Go Down'', (if dir = 1 then float_add cnt (1 / 2) else cnt),
       (if dir = 1 then 0 else dir), 1)"
    using assms by (simp add: update_feedback_and_count_def)
  have "update_feedback_and_count elbow shoulder hip dir cnt 0 =
      (''Good - Go Down'', (if dir = 1 then cnt + 1 / 2 else cnt), (if dir = 1 then 0 else dir), 1)"
    if "exact_half_steps cnt"
    using call float_add_half_exact [OF that] by simp
  with call show ?thesis by blast
qed

text \<open>
  The valid posture from form 0, once with direction 1 and once with direction 0.
\<close>

theorem posture_check_first_witness:
  "exact_half_steps (1 / 2) \<and> exact_half_steps 0 \<and>
   update_feedback_and_count 170 50 170 1 (1 / 2) 0 = (''Good - Go Down'', 1, 0, 1) \<and>
   update_feedback_and_count 170 50 170 0 0 0 = (''Good - Go Down'', 0, 0, 1)"
proof -
  have x: "exact_half_steps (1 / 2)" "exact_half_steps 0"
    by (simp_all add: exact_half_steps_def)
  from posture_check_first [of 170 50 170 1 "1 / 2"] posture_check_first [of 170 50 170 0 0] x
  show ?thesis by (simp add: float_add_half_exact)
qed

text \<open>
  Claim C9 as stated fails for a call with a count at which adding 0.5 rounds. At count
  2^53, in the valid posture with direction 1 and form 0, the call returns form 1 and
  direction 0 with the count still 2^53: no 0.5 has been awarded.
\<close>

theorem posture_check_first_counterexample:
  "update_feedback_and_count 170 50 170 1 (2 ^ 53) 0 = (''Good - Go Down'', 2 ^ 53, 0, 1) \<and>
   (2 ^ 53 :: real) \<noteq> 2 ^ 53 + 1 / 2"
  by (simp add: update_feedback_and_count_def float_add_half_at_2_53)

text \<open>
  Claim C10, as the code has it. In every call a change of the count comes with a
  change of the direction; and for a count that is a multiple of 0.5 of magnitude below
  2^52 the count changes if and only if the direction changes.
\<close>

theorem count_changes_iff_direction_changes:
  assumes "update_feedback_and_count elbow shoulder hip dir cnt frm = (feedback, cnt', dir', frm')"
  shows "(cnt' \<noteq> cnt \<longrightarrow> dir' \<noteq> dir) \<and>
         (exact_half_steps cnt \<longrightarrow> (cnt' \<noteq> cnt \<longleftrightarrow> dir' \<noteq> dir))"
proof -
  have branches:
    "(cnt' = cnt \<and> dir' = dir) \<or> (cnt' = float_add cnt (1 / 2) \<and> dir' \<noteq> dir)"
    using assms by (auto simp: update_feedback_and_count_def split: if_splits)
  then have fwd: "cnt' \<noteq> cnt \<longrightarrow> dir' \<noteq> dir" by blast
  have "cnt' \<noteq> cnt \<longleftrightarrow> dir' \<noteq> dir" if "exact_half_steps cnt"
    using branches float_add_half_exact [OF that] by auto
  with fwd show ?thesis by blast
qed

text \<open>
  An ascent: the count goes from 0.5 to 1 and the direction from 1 to 0.
\<close>

theorem count_changes_iff_direction_changes_witness:
  "exact_half_steps (1 / 2) \<and>
   update_feedback_and_count 170 50 170 1 (1 / 2) 1 = (''Good - Go Down'', 1, 0, 1) \<and>
   (1::real) \<noteq> 1 / 2 \<and> (0::int) \<noteq> 1"
proof -
  have x: "exact_half_steps (1 / 2)" by (simp add: exact_half_steps_def)
  have a: "update_feedback_and_count 170 50 170 1 (1 / 2) 1 = (''Good - Go Down'', 1, 0, 1)"
    by (simp add: update_feedback_and_count_def float_add_half_exact [OF x])
  from count_changes_iff_direction_changes [OF a] a x show ?thesis by simp
qed

text \<open>
  Claim C10 as stated fails for a call with a count at which adding 0.5 rounds. At
  count 2^53, in the up posture with direction 1 and form 1, the direction changes to 0
  and the count returned is the count given.
\<close>

theorem count_changes_iff_direction_changes_counterexample:
  "update_feedback_and_count 170 50 170 1 (2 ^ 53) 1 = (''Good - Go Down'', 2 ^ 53, 0, 1) \<and>
   (0::int) \<noteq> 1"
  by (simp add: update_feedback_and_count_def float_add_half_at_2_53)


section \<open>Properties of the frame pipeline\<close>

text \<open>
  Claim C8. On a non-null, non-empty image for which pose detection returns an empty
  landmark list, the pipeline returns the feedback "Move into frame", the count,
  direction and form it was given, and the detector's copy of the frame after
  \<open>draw_ui\<close> (drawn with zero angles).
\<close>

theorem no_pose_frame:
  assumes "length im \<noteq> 0"
    and "findPose det im = Returned img_copy"
    and "findPosition det img_copy = Returned []"
  shows "process_frame npx cvx (Some im) det cnt dir frm =
           (Overlay img_copy
              (if drawing_ok cvx
               then Some \<lparr>ui_per = 0, ui_bar = 0, ui_count = cnt,
                          ui_feedback = ''Move into frame'', ui_form = frm,
                          ui_elbow_angle = 0, ui_shoulder_angle = 0, ui_hip_angle = 0\<rparr>
               else None),
            cnt, dir, frm, ''Move into frame'')"
  using assms by (simp add: process_frame_def draw_ui_def)

text \<open>
  A one-pixel image and a detector that finds no landmarks.
\<close>

theorem no_pose_frame_witness:
  "process_frame end_values \<lparr>drawing_ok = True, putText_ok = True\<rparr> (Some [7])
     \<lparr>findPose = Returned, findPosition = (\<lambda>img. Returned []),
      findAngle = (\<lambda>img p1 p2 p3. Raised)\<rparr> (3 / 2) 1 1 =
   (Overlay [7]
      (Some \<lparr>ui_per = 0, ui_bar = 0, ui_count = 3 / 2, ui_feedback = ''Move into frame'',
             ui_form = 1, ui_elbow_angle = 0, ui_shoulder_angle = 0, ui_hip_angle = 0\<rparr>),
    3 / 2, 1, 1, ''Move into frame'')"
  using no_pose_frame [of "[7]"
      "\<lparr>findPose = Returned, findPosition = (\<lambda>img. Returned []),
        findAngle = (\<lambda>img p1 p2 p3. Raised)\<rparr>" "[7]"
      end_values "\<lparr>drawing_ok = True, putText_ok = True\<rparr>" "3 / 2" 1 1]
  by simp

text \<open>
  The rep state a frame returns is the state it was given, or the result of one call of
  the rep state machine on it; and a call that changes the count adds 0.5 to it (as
  floats) and returns form 1.
\<close>

lemma process_frame_state:
  assumes "process_frame npx cvx img det cnt dir frm = (pimg, cnt', dir', frm', fb)"
  shows "(cnt', dir', frm') = (cnt, dir, frm) \<or>
         (\<exists>e s h. update_feedback_and_count e s h dir cnt frm = (fb, cnt', dir', frm'))"
  using assms
  by (auto simp: process_frame_def critical_error_def angle_error_def Let_def
      split: option.splits outcome.splits if_splits prod.splits)

lemma update_count_change:
  assumes "update_feedback_and_count e s h dir cnt frm = (fb, cnt', dir', frm')"
    and "cnt' \<noteq> cnt"
  shows "cnt' = float_add cnt (1 / 2) \<and> frm' = 1"
  using assms by (auto simp: update_feedback_and_count_def split: if_splits)


section \<open>Properties of the session loop\<close>

lemma loop_body_decoded:
  assumes "imdecode env = Returned (Some frame)" "length frame \<noteq> 0"
  shows "loop_body (Recv env) s =
           (case process_and_update env frame (s\<lparr>frame_count := frame_count s + 1, error_count := 0\<rparr>) of
              (processed_img, feedback, s2) \<Rightarrow> encode_and_send env processed_img feedback s2)"
  using assms by (simp add: loop_body_def)

lemma encode_and_send_state:
  assumes "encode_and_send env pimg fb s = (c, s')"
  shows "count s' = count s \<and> direction s' = direction s \<and> form s' = form s \<and>
         frame_count s' = frame_count s \<and> error_count s' = error_count s \<and>
         correct_reps s' = correct_reps s \<and> incorrect_reps s' = incorrect_reps s"
  using assms by (auto simp: encode_and_send_def Let_def split: if_splits)

text \<open>
  Claim C1, as the code has it. On a decoded frame the tally is incremented whenever
  the count returned by the frame pipeline differs from the previous count, which is on
  every change of 0.5, half reps included: the tally that matches the form value of
  that moment grows by one and the other is unchanged. When the count is unchanged,
  neither tally changes. The changed count is the float sum of the previous count and
  0.5, which is the previous count plus 0.5 for every multiple of 0.5 of magnitude
  below 2^52.
\<close>

theorem tally_on_every_count_change:
  assumes "imdecode env = Returned (Some frame)" "length frame \<noteq> 0"
    and "loop_body (Recv env) s = (c, s')"
  shows "(count s' \<noteq> count s \<longrightarrow>
            count s' = float_add (count s) (1 / 2) \<and>
            (exact_half_steps (count s) \<longrightarrow> count s' = count s + 1 / 2) \<and>
            (if form s' = 1
             then correct_reps s' = correct_reps s + 1 \<and> incorrect_reps s' = incorrect_reps s
             else incorrect_reps s' = incorrect_reps s + 1 \<and> correct_reps s' = correct_reps s)) \<and>
         (count s' = count s \<longrightarrow>
            correct_reps s' = correct_reps s \<and> incorrect_reps s' = incorrect_reps s)"
proof -
  let ?s1 = "s\<lparr>frame_count := frame_count s + 1, error_count := 0\<rparr>"
  obtain pimg nc nd nf fb where
    pf: "process_frame (np env) (cv env) (Some frame) (detector env)
           (count s) (direction s) (form s) = (pimg, nc, nd, nf, fb)"
    by (metis prod_cases5)
  define s2 where "s2 =
     (if nc \<noteq> count s then
        (if nf = 1 then ?s1\<lparr>correct_reps := correct_reps s + 1\<rparr>
         else ?s1\<lparr>incorrect_reps := incorrect_reps s + 1\<rparr>)
      else ?s1)\<lparr>count := nc, direction := nd, form := nf\<rparr>"
  have pu: "process_and_update env frame ?s1 = (pimg, fb, s2)"
    using pf by (simp add: process_and_update_def s2_def Let_def)
  from assms pu have es: "encode_and_send env pimg fb s2 = (c, s')"
    by (simp add: loop_body_decoded)
  note st = encode_and_send_state [OF es]
  have half: "nc \<noteq> count s \<Longrightarrow> nc = float_add (count s) (1 / 2)"
    using process_frame_state [OF pf] update_count_change by blast
  have exact: "nc \<noteq> count s \<Longrightarrow> exact_half_steps (count s) \<Longrightarrow> nc = count s + 1 / 2"
    using half float_add_half_exact by simp
  show ?thesis
    using st half exact by (auto simp: s2_def)
qed

text \<open>
  A descent from the state (count 0, direction 0, form 1): the count becomes 0.5 and
  the tally of correct reps becomes 1.
\<close>

theorem tally_on_every_count_change_witness:
  "count (snd (loop_body (Recv (pose_env 80 50 170)) (initial_session\<lparr>form := 1\<rparr>))) = 1 / 2 \<and>
   form (snd (loop_body (Recv (pose_env 80 50 170)) (initial_session\<lparr>form := 1\<rparr>))) = 1 \<and>
   correct_reps (snd (loop_body (Recv (pose_env 80 50 170)) (initial_session\<lparr>form := 1\<rparr>))) = 1 \<and>
   incorrect_reps (snd (loop_body (Recv (pose_env 80 50 170)) (initial_session\<lparr>form := 1\<rparr>))) = 0"
proof -
  let ?env = "pose_env 80 50 170"
  let ?s = "initial_session\<lparr>form := 1\<rparr>"
  have d: "imdecode ?env = Returned (Some [0])" by (simp add: pose_env_def)
  have l: "length [0::nat] \<noteq> 0" by simp
  have c: "count (snd (loop_body (Recv ?env) ?s)) = 1 / 2"
    by (simp add: session_eval)
  have f: "form (snd (loop_body (Recv ?env) ?s)) = 1"
    by (simp add: session_eval)
  have z: "count ?s = 0" "correct_reps ?s = 0" "incorrect_reps ?s = 0"
    by (simp_all add: initial_session_def)
  have x: "exact_half_steps 0" by (simp add: exact_half_steps_def)
  from tally_on_every_count_change [OF d l prod.collapse [symmetric], of ?s] c f z x
  show ?thesis by simp
qed

text \<open>
  Claim C1 as stated fails. A session of two frames, the starting posture and then the
  down posture: after the first frame the count is 0 and no rep is tallied; after the
  second the count is 0.5, its whole-number part is still 0, and one correct rep is
  tallied.
\<close>

theorem tally_only_on_whole_reps_counterexample:
  "count (snd (websocket_live_stream [Recv (pose_env 170 50 170)])) = 0 \<and>
   correct_reps (snd (websocket_live_stream [Recv (pose_env 170 50 170)])) = 0 \<and>
   count (snd (websocket_live_stream
     [Recv (pose_env 170 50 170), Recv (pose_env 80 50 170)])) = 1 / 2 \<and>
   \<lfloor>count (snd (websocket_live_stream
     [Recv (pose_env 170 50 170), Recv (pose_env 80 50 170)]))\<rfloor> =
   \<lfloor>count (snd (websocket_live_stream [Recv (pose_env 170 50 170)]))\<rfloor> \<and>
   correct_reps (snd (websocket_live_stream
     [Recv (pose_env 170 50 170), Recv (pose_env 80 50 170)])) = 1"
  by (simp add: session_eval)

text \<open>
  Claim C2, as the code has it. Every received frame advances \<open>frame_count\<close>,
  also one whose decoding fails. An iteration sends a telemetry text message exactly
  when its frame is decoded, encoded and sent, the text send goes through, and
  \<open>frame_count\<close>, the number of frames received so far, is a multiple of 10.
\<close>

theorem telemetry_cadence:
  assumes "loop_body (Recv env) s = (c, s')"
  shows "frame_count s' = frame_count s + 1 \<and>
         length (filter is_Text (sent s')) =
           length (filter is_Text (sent s)) +
             (if decodes (Recv env) \<and> imencode_ok env \<and> send_bytes_ok env \<and> send_text_ok env \<and>
                 frame_count s' mod 10 = 0
              then 1 else 0)"
  using assms
  by (auto simp: loop_body_def decode_failed_def process_and_update_def encode_and_send_def
      Let_def split: outcome.splits option.splits prod.splits if_splits)

text \<open>
  The tenth received frame, once as a frame that decodes and once as one that does
  not.
\<close>

theorem telemetry_cadence_witness:
  "frame_count (snd (loop_body (Recv (pose_env 170 50 170)) (initial_session\<lparr>frame_count := 9\<rparr>))) = 10 \<and>
   length (filter is_Text
     (sent (snd (loop_body (Recv (pose_env 170 50 170)) (initial_session\<lparr>frame_count := 9\<rparr>))))) = 1 \<and>
   length (filter is_Text
     (sent (snd (loop_body (Recv garbled_env) (initial_session\<lparr>frame_count := 9\<rparr>))))) = 0"
  using telemetry_cadence [OF prod.collapse [symmetric],
      of "pose_env 170 50 170" "initial_session\<lparr>frame_count := 9\<rparr>"]
    telemetry_cadence [OF prod.collapse [symmetric],
      of garbled_env "initial_session\<lparr>frame_count := 9\<rparr>"]
  by (simp add: pose_env_def garbled_env_def initial_session_def)

text \<open>
  Claim C2 as stated fails. In a session whose first frame does not decode, the
  telemetry message goes out with the ninth successfully processed frame (the tenth
  received), and nothing had been sent as telemetry before it.
\<close>

theorem telemetry_on_received_frames_counterexample:
  "length (filter decodes
     [Recv garbled_env, Recv (pose_env 170 50 170), Recv (pose_env 170 50 170),
      Recv (pose_env 170 50 170), Recv (pose_env 170 50 170), Recv (pose_env 170 50 170),
      Recv (pose_env 170 50 170), Recv (pose_env 170 50 170), Recv (pose_env 170 50 170),
      Recv (pose_env 170 50 170)]) = 9 \<and>
   length (filter is_Text (sent (snd (websocket_live_stream
     [Recv garbled_env, Recv (pose_env 170 50 170), Recv (pose_env 170 50 170),
      Recv (pose_env 170 50 170), Recv (pose_env 170 50 170), Recv (pose_env 170 50 170),
      Recv (pose_env 170 50 170), Recv (pose_env 170 50 170), Recv (pose_env 170 50 170)])))) = 0 \<and>
   length (filter is_Text (sent (snd (websocket_live_stream
     [Recv garbled_env, Recv (pose_env 170 50 170), Recv (pose_env 170 50 170),
      Recv (pose_env 170 50 170), Recv (pose_env 170 50 170), Recv (pose_env 170 50 170),
      Recv (pose_env 170 50 170), Recv (pose_env 170 50 170), Recv (pose_env 170 50 170),
      Recv (pose_env 170 50 170)])))) = 1"
  by (simp add: session_eval)

text \<open>
  Runs of frames that do not decode: each adds one to both counters and sends nothing;
  the loop goes on while the error counter is below the ceiling and breaks when it
  reaches it.
\<close>

lemma loop_body_decode_failure:
  "decode_failure ev \<Longrightarrow>
   loop_body ev s = decode_failed (s\<lparr>frame_count := frame_count s + 1\<rparr>)"
  by (cases ev) (auto simp: loop_body_def split: outcome.splits option.splits)

lemma failures_below_ceiling:
  "\<forall>ev \<in> set fs. decode_failure ev \<Longrightarrow> error_count s + length fs < max_errors \<Longrightarrow>
   run_loop fs s =
     (Continue, s\<lparr>frame_count := frame_count s + length fs,
                  error_count := error_count s + length fs\<rparr>)"
proof (induction fs arbitrary: s)
  case Nil
  show ?case by simp
next
  case (Cons ev fs)
  let ?s' = "s\<lparr>frame_count := frame_count s + 1, error_count := error_count s + 1\<rparr>"
  from Cons.prems have step: "loop_body ev s = (Continue, ?s')"
    by (simp add: loop_body_decode_failure decode_failed_def)
  from Cons.prems have "run_loop fs ?s' =
      (Continue, ?s'\<lparr>frame_count := frame_count ?s' + length fs,
                     error_count := error_count ?s' + length fs\<rparr>)"
    by (intro Cons.IH) simp_all
  with step show ?case by simp
qed

lemma failures_reach_ceiling:
  "\<forall>ev \<in> set fs. decode_failure ev \<Longrightarrow> error_count s < max_errors \<Longrightarrow>
   max_errors \<le> error_count s + length fs \<Longrightarrow> fst (run_loop fs s) = Break"
proof (induction fs arbitrary: s)
  case Nil
  then show ?case by simp
next
  case (Cons ev fs)
  let ?s' = "s\<lparr>frame_count := frame_count s + 1, error_count := error_count s + 1\<rparr>"
  show ?case
  proof (cases "max_errors \<le> error_count s + 1")
    case True
    with Cons.prems show ?thesis
      by (simp add: loop_body_decode_failure decode_failed_def)
  next
    case False
    with Cons.prems have step: "loop_body ev s = (Continue, ?s')"
      by (simp add: loop_body_decode_failure decode_failed_def)
    from Cons.prems False have "fst (run_loop fs ?s') = Break"
      by (intro Cons.IH) simp_all
    with step show ?thesis by simp
  qed
qed

lemma failures_send_nothing:
  "\<forall>ev \<in> set fs. decode_failure ev \<Longrightarrow> sent (snd (run_loop fs s)) = sent s"
proof (induction fs arbitrary: s)
  case Nil
  show ?case by simp
next
  case (Cons ev fs)
  let ?s' = "s\<lparr>frame_count := frame_count s + 1, error_count := error_count s + 1\<rparr>"
  from Cons.prems have lb: "loop_body ev s =
      (if max_errors \<le> error_count s + 1 then (Break, ?s') else (Continue, ?s'))"
    by (simp add: loop_body_decode_failure decode_failed_def)
  from Cons.prems have "sent (snd (run_loop fs ?s')) = sent ?s'"
    by (intro Cons.IH) simp
  with lb show ?case by simp
qed

lemma run_loop_snoc:
  "run_loop fs s = (Continue, s') \<Longrightarrow> run_loop (fs @ [ev]) s = loop_body ev s'"
proof (induction fs arbitrary: s)
  case Nil
  then show ?case by (simp split: prod.splits control.splits)
next
  case (Cons a fs)
  then show ?case by (auto split: prod.splits control.splits)
qed

lemma decoded_frame_control:
  assumes "decodes (Recv env)"
  shows "error_count (snd (loop_body (Recv env) s)) = 0 \<and>
         (fst (loop_body (Recv env) s) = Break \<longleftrightarrow>
            imencode_ok env \<and>
            (\<not> send_bytes_ok env \<or> ((frame_count s + 1) mod 10 = 0 \<and> \<not> send_text_ok env)))"
  using assms
  by (auto simp: loop_body_def process_and_update_def encode_and_send_def Let_def
      split: outcome.splits option.splits prod.splits if_splits)

text \<open>
  Claim C4. From a state whose error counter is 0, a run of frames that all fail to
  decode ends the session exactly when it has 10 frames (or more: the loop stops at the
  tenth), and nothing is sent for any of them. A run of at most 9 of them followed by a
  frame that decodes leaves the error counter at 0, and the session goes on, unless the
  send of that frame fails (the only other way out of the loop at that frame).
\<close>

theorem decode_error_ceiling:
  assumes "error_count s = 0"
    and "\<forall>ev \<in> set fs. decode_failure ev"
  shows "(fst (run_loop fs s) = Break \<longleftrightarrow> 10 \<le> length fs) \<and>
         sent (snd (run_loop fs s)) = sent s \<and>
         (length fs \<le> 9 \<and> decodes (Recv env) \<longrightarrow>
            error_count (snd (run_loop (fs @ [Recv env]) s)) = 0 \<and>
            (fst (run_loop (fs @ [Recv env]) s) = Break \<longleftrightarrow>
               imencode_ok env \<and>
               (\<not> send_bytes_ok env \<or>
                ((frame_count s + length fs + 1) mod 10 = 0 \<and> \<not> send_text_ok env))))"
proof -
  have below: "length fs \<le> 9 \<Longrightarrow>
      run_loop fs s = (Continue, s\<lparr>frame_count := frame_count s + length fs,
                                   error_count := error_count s + length fs\<rparr>)"
    using assms by (intro failures_below_ceiling) (simp_all add: max_errors_def)
  have brk: "fst (run_loop fs s) = Break \<longleftrightarrow> 10 \<le> length fs"
  proof (cases "10 \<le> length fs")
    case True
    with assms failures_reach_ceiling [of fs s] show ?thesis
      by (simp add: max_errors_def)
  next
    case False
    with below show ?thesis by simp
  qed
  have last: "error_count (snd (run_loop (fs @ [Recv env]) s)) = 0 \<and>
      (fst (run_loop (fs @ [Recv env]) s) = Break \<longleftrightarrow>
         imencode_ok env \<and>
         (\<not> send_bytes_ok env \<or>
          ((frame_count s + length fs + 1) mod 10 = 0 \<and> \<not> send_text_ok env)))"
    if "length fs \<le> 9" "decodes (Recv env)"
    using decoded_frame_control [OF that(2)] run_loop_snoc [OF below [OF that(1)]]
    by simp
  have quiet: "sent (snd (run_loop fs s)) = sent s"
    by (rule failures_send_nothing [OF assms(2)])
  show ?thesis
  proof (intro conjI impI)
    show "fst (run_loop fs s) = Break \<longleftrightarrow> 10 \<le> length fs" by (rule brk)
    show "sent (snd (run_loop fs s)) = sent s" by (rule quiet)
  next
    assume a: "length fs \<le> 9 \<and> decodes (Recv env)"
    then show "error_count (snd (run_loop (fs @ [Recv env]) s)) = 0"
      using last by simp
  next
    assume a: "length fs \<le> 9 \<and> decodes (Recv env)"
    then show "fst (run_loop (fs @ [Recv env]) s) = Break \<longleftrightarrow>
         imencode_ok env \<and>
         (\<not> send_bytes_ok env \<or>
          ((frame_count s + length fs + 1) mod 10 = 0 \<and> \<not> send_text_ok env))"
      using last by simp
  qed
qed

text \<open>
  Ten garbled frames from the start of a session; nine garbled frames; nine garbled
  frames followed by a good one.
\<close>

theorem decode_error_ceiling_witness:
  "fst (run_loop (replicate 10 (Recv garbled_env)) initial_session) = Break \<and>
   fst (run_loop (replicate 9 (Recv garbled_env)) initial_session) \<noteq> Break \<and>
   sent (snd (run_loop (replicate 9 (Recv garbled_env)) initial_session)) = [] \<and>
   error_count (snd (run_loop (replicate 9 (Recv garbled_env) @ [Recv (pose_env 170 50 170)])
      initial_session)) = 0 \<and>
   fst (run_loop (replicate 9 (Recv garbled_env) @ [Recv (pose_env 170 50 170)])
      initial_session) \<noteq> Break"
proof -
  have z: "error_count initial_session = 0" by (simp add: initial_session_def)
  have g: "\<forall>ev \<in> set (replicate n (Recv garbled_env)). decode_failure ev" for n
    by (simp add: garbled_env_def pose_env_def)
  have p: "decodes (Recv (pose_env 170 50 170))" by (simp add: pose_env_def)
  from decode_error_ceiling [OF z g, of 10 "pose_env 170 50 170"]
    decode_error_ceiling [OF z g, of 9 "pose_env 170 50 170"] p
  show ?thesis by (simp add: pose_env_def initial_session_def)
qed


end
